theory Spec2Isabelle
  imports Main
begin

section \<open>The search page: pagination and cache coordination\<close>

text \<open>
  A shallow embedding of \<^verbatim>\<open>src/pages/Search/index.tsx\<close> (component
  \<^verbatim>\<open>MovieSearchPage\<close>). The React state cells of the component are the fields of one
  record. A handler reads the constants of the render that made it, and its setters act on
  the present state; the two are the same state when the component has rendered since the
  last change. An asynchronous handler is split at its single \<^verbatim>\<open>await\<close>: the part
  before it returns the request handed to the search service (if any), the part after it
  takes the way the promise settled. State setters that are given an updater function act
  on the state current at that moment, as React applies them.
\<close>

subsection \<open>Data\<close>

text \<open>
  Modelled from the spec: the record type \<^verbatim>\<open>TVideo\<close> is imported from
  \<^verbatim>\<open>@/services\<close>, which is not part of the sources at hand. The fields are the ones the
  page reads (lines 176-183); \<^verbatim>\<open>href\<close> is the stable key; \<^verbatim>\<open>type\<close> is written
  \<open>vtype\<close>.
\<close>

record TVideo =
  href :: string
  title :: string
  year :: string
  cover :: string
  rating :: string
  vtype :: string
  description :: string

text \<open>
  \<^verbatim>\<open>interface PaginationInfo\<close> (lines 32-36). Page numbers are integers; the
  code's \<^verbatim>\<open>number\<close> (a double) agrees with them, and \<^verbatim>\<open>currentPage + 1\<close> with the
  integer sum, below \<open>2\<^sup>5\<^sup>3\<close>.
\<close>

record PaginationInfo =
  currentPage :: int
  totalPages :: int
  hasMore :: bool

text \<open>
  Modelled from the spec: the value \<^verbatim>\<open>ui.getVideoSearchResult\<close> resolves to is declared
  in \<^verbatim>\<open>@/hooks\<close>, not at hand. Section 6 of the specification gives its shape: a result
  list, which may be missing, and pagination metadata of two integers.
\<close>

record SearchPagination =
  resp_currentPage :: int
  resp_totalPages :: int

text \<open>
  Modelled from the spec: the resolved value itself, \<^verbatim>\<open>{ list, pagination }\<close>, with
  \<open>None\<close> for a \<^verbatim>\<open>list\<close> that is missing.
\<close>

record SearchResult =
  resp_list :: "TVideo list option"
  resp_pagination :: SearchPagination

text \<open>
  How the promise of \<^verbatim>\<open>ui.getVideoSearchResult(searchword, page)\<close> settles: it rejects,
  or it resolves to a value that may be \<^verbatim>\<open>undefined\<close> (the code reads \<^verbatim>\<open>data?.list\<close>).
\<close>

datatype fetch_outcome = Rejected | Resolved "SearchResult option"

subsection \<open>The page map as a JavaScript object\<close>

text \<open>
  \<^verbatim>\<open>interface DataObject { [key: string]: string[] }\<close> (lines 21-23). The only keys the
  code ever writes are page numbers, taken as integers (a JavaScript number that is not an
  integer is outside this model). The object is kept as the list of its own properties
  in the order in which \<^verbatim>\<open>for (const key in dataObj)\<close> visits them: first the keys that
  are array indices (\<open>0 \<le> k < 2\<^sup>3\<^sup>2 - 1\<close>) in ascending numeric order, then every other key
  in the order of its creation.
\<close>

type_synonym DataObject = "(int \<times> string list) list"

definition is_array_index :: "int \<Rightarrow> bool" where
  "is_array_index k \<longleftrightarrow> 0 \<le> k \<and> k < 4294967295"

text \<open>The representation invariant: no key twice, and the enumeration order just described
  (an array index is preceded by smaller array indices only).\<close>

fun wf_obj :: "DataObject \<Rightarrow> bool" where
  "wf_obj [] = True"
| "wf_obj ((k, v) # rest) =
     (k \<notin> set (map fst rest) \<and>
      (\<forall>k' \<in> set (map fst rest). is_array_index k' \<longrightarrow> is_array_index k \<and> k < k') \<and>
      wf_obj rest)"

text \<open>\<^verbatim>\<open>obj[k]\<close>: the value of an own property, or \<^verbatim>\<open>undefined\<close>.\<close>

definition obj_get :: "DataObject \<Rightarrow> int \<Rightarrow> string list option" where
  "obj_get obj k = map_of obj k"

text \<open>
  \<^verbatim>\<open>obj[k] = v\<close>: an existing property keeps its place; a new array index goes to its
  numeric place among the indices; any other new key goes last.
\<close>

fun obj_put :: "int \<Rightarrow> string list \<Rightarrow> DataObject \<Rightarrow> DataObject" where
  "obj_put k v [] = [(k, v)]"
| "obj_put k v ((k', v') # rest) =
     (if k' = k then (k, v) # rest
      else if is_array_index k \<and> (\<not> is_array_index k' \<or> k < k')
      then (k, v) # (k', v') # rest
      else (k', v') # obj_put k v rest)"

text \<open>The keys in the order of \<^verbatim>\<open>for (const key in dataObj)\<close>.\<close>

definition own_keys :: "DataObject \<Rightarrow> int list" where
  "own_keys obj = map fst obj"

text \<open>\<^verbatim>\<open>lodash.get(dataObj, `[${key}]`, [])\<close>: the property, or the default \<^verbatim>\<open>[]\<close>.\<close>

definition lodash_get :: "DataObject \<Rightarrow> int \<Rightarrow> string list" where
  "lodash_get obj key = (case obj_get obj key of None \<Rightarrow> [] | Some items \<Rightarrow> items)"

text \<open>
  The memo \<^verbatim>\<open>list\<close> (lines 117-124): starting from the empty \<^verbatim>\<open>_list\<close>, every key of
  the object pushes its items.
\<close>

definition list_keys :: "DataObject \<Rightarrow> string list" where
  "list_keys obj = fold (\<lambda>key items. items @ lodash_get obj key) (own_keys obj) []"

text \<open>The highest page number held (0 for the empty object).\<close>

definition highest_page :: "DataObject \<Rightarrow> int" where
  "highest_page obj = fold max (own_keys obj) 0"

text \<open>
  A page map in the sense of the specification's data model: a well-formed object all of
  whose keys are page numbers \<open>\<ge> 1\<close> (and array indices).
\<close>

definition page_map :: "DataObject \<Rightarrow> bool" where
  "page_map obj \<longleftrightarrow> wf_obj obj \<and> (\<forall>k \<in> set (own_keys obj). 1 \<le> k \<and> is_array_index k)"

subsection \<open>The component state\<close>

text \<open>
  Effects on the outside that are not state cells: the call
  \<^verbatim>\<open>flatListRef.current.scrollToOffset({ offset: 0, animated: true })\<close> (line 75) and
  \<^verbatim>\<open>console.error\<close> (line 105). They are recorded in the order they happen.
\<close>

datatype effect = ScrollToOffset int | ConsoleError

text \<open>
  The state cells of lines 50-59, the record store of \<^verbatim>\<open>useAppStore\<close> (line 62) and
  the effects so far.
\<close>

record state =
  isRefreshing :: bool
  isLoadingMore :: bool
  dataObj :: DataObject
  searchword :: string
  loading :: bool
  pagination :: PaginationInfo
  videoData :: "string \<rightharpoonup> TVideo"
  effects :: "effect list"

text \<open>
  The state at mount (the arguments of \<^verbatim>\<open>useState\<close> and \<^verbatim>\<open>useImmer\<close>). The record
  store belongs to the application and may already hold records.
\<close>

definition initial_state :: "(string \<rightharpoonup> TVideo) \<Rightarrow> state" where
  "initial_state store =
     \<lparr>isRefreshing = False, isLoadingMore = False, dataObj = [], searchword = [],
      loading = False,
      pagination = \<lparr>currentPage = 1, totalPages = 1, hasMore = True\<rparr>,
      videoData = store, effects = []\<rparr>"

text \<open>
  Modelled from the spec: \<^verbatim>\<open>updateVideoData\<close> and \<^verbatim>\<open>getVideoData\<close> come from
  \<^verbatim>\<open>@/store\<close>, not at hand. Section 4.2 of the specification: \<^verbatim>\<open>put\<close> is an
  unconditional upsert, \<^verbatim>\<open>get\<close> a lookup that may find nothing; no entry is ever evicted.
  This is \<^verbatim>\<open>updateVideoData\<close>, the \<^verbatim>\<open>put\<close>.
\<close>

definition updateVideoData :: "string \<Rightarrow> TVideo \<Rightarrow> state \<Rightarrow> state" where
  "updateVideoData key movie s = s\<lparr>videoData := (videoData s)(key \<mapsto> movie)\<rparr>"

text \<open>
  Modelled from the spec: \<^verbatim>\<open>getVideoData\<close>, the \<^verbatim>\<open>get\<close> of section 4.2; \<open>None\<close> is
  the absent record.
\<close>

definition getVideoData :: "string \<Rightarrow> state \<Rightarrow> TVideo option" where
  "getVideoData key s = videoData s key"

text \<open>\<^verbatim>\<open>onChangeText={setSearchword}\<close> (line 212).\<close>

definition setSearchword :: "string \<Rightarrow> state \<Rightarrow> state" where
  "setSearchword text s = s\<lparr>searchword := text\<rparr>"

text \<open>
  \<^verbatim>\<open>flatListRef.current\<close>: the list is mounted unless the skeleton is shown in its place
  (line 218: \<^verbatim>\<open>list.length === 0 && loading\<close>).
\<close>

definition flatListRef_current :: "state \<Rightarrow> bool" where
  "flatListRef_current s \<longleftrightarrow> \<not> (list_keys (dataObj s) = [] \<and> loading s)"

subsection \<open>\<^verbatim>\<open>getData\<close>\<close>

text \<open>A call of \<^verbatim>\<open>ui.getVideoSearchResult(searchword, page)\<close>.\<close>

type_synonym request = "string \<times> int"

text \<open>
  Lines 71-80, up to the \<^verbatim>\<open>await\<close>. What \<^verbatim>\<open>flatListRef.current\<close> holds is an
  argument (\<open>mounted\<close>): the ref belongs to the tree of the last render. Nothing
  happens for the empty keyword; otherwise a fetch of page 1 or less with the list mounted
  turns \<^verbatim>\<open>isRefreshing\<close> on and scrolls to the top, \<^verbatim>\<open>loading\<close> is turned on and the
  request goes out. The setters act on the present state.
\<close>

definition getData_start :: "bool \<Rightarrow> string \<Rightarrow> int \<Rightarrow> state \<Rightarrow> state \<times> request option" where
  "getData_start mounted sw page s =
     (if sw = [] then (s, None)
      else ((if page \<le> 1 \<and> mounted
             then s\<lparr>isRefreshing := True, effects := effects s @ [ScrollToOffset 0]\<rparr>
             else s)\<lparr>loading := True\<rparr>,
            Some (sw, page)))"

text \<open>\<^verbatim>\<open>getData\<close> called while the present state is the one last rendered.\<close>

definition getData_begin :: "string \<Rightarrow> int \<Rightarrow> state \<Rightarrow> state \<times> request option" where
  "getData_begin sw page s = getData_start (flatListRef_current s) sw page s"

text \<open>Lines 83-85: \<^verbatim>\<open>data.list.forEach(movie => updateVideoData(movie.href, movie))\<close>.\<close>

definition save_movies :: "TVideo list \<Rightarrow> state \<Rightarrow> state" where
  "save_movies movies s = fold (\<lambda>movie. updateVideoData (href movie) movie) movies s"

text \<open>
  Lines 88-94: page 1 replaces the whole object by \<^verbatim>\<open>{ 1: hrefs }\<close>; any other page
  is assigned into the object held at that moment.
\<close>

definition setDataObj :: "int \<Rightarrow> TVideo list \<Rightarrow> state \<Rightarrow> state" where
  "setDataObj page movies s =
     s\<lparr>dataObj := (if page = 1 then [(1, map href movies)]
                    else obj_put page (map href movies) (dataObj s))\<rparr>"

text \<open>Lines 97-102: the three fields are taken from the response's pagination.\<close>

definition setPagination :: "SearchPagination \<Rightarrow> state \<Rightarrow> state" where
  "setPagination pg s =
     s\<lparr>pagination := (pagination s)
          \<lparr>currentPage := resp_currentPage pg,
           totalPages := resp_totalPages pg,
           hasMore := resp_currentPage pg < resp_totalPages pg\<rparr>\<rparr>"

text \<open>
  Lines 81-109, from the settling of the promise on. A rejection is caught and logged. A
  value without a truthy \<^verbatim>\<open>list\<close> (\<^verbatim>\<open>data?.list\<close>; an empty array is truthy) is
  skipped. Otherwise the records are saved, then the page map is set, then the pagination.
  The \<^verbatim>\<open>finally\<close> block clears \<^verbatim>\<open>loading\<close> and \<^verbatim>\<open>isRefreshing\<close> in every case.
\<close>

definition getData_resume :: "int \<Rightarrow> fetch_outcome \<Rightarrow> state \<Rightarrow> state" where
  "getData_resume page outcome s =
     (case outcome of
        Rejected \<Rightarrow> s\<lparr>effects := effects s @ [ConsoleError]\<rparr>
      | Resolved None \<Rightarrow> s
      | Resolved (Some data) \<Rightarrow>
          (case resp_list data of
             None \<Rightarrow> s
           | Some movies \<Rightarrow>
               setPagination (resp_pagination data)
                 (setDataObj page movies (save_movies movies s))))
     \<lparr>loading := False, isRefreshing := False\<rparr>"

text \<open>A settled fetch that brought no list: the value or its \<^verbatim>\<open>list\<close> is missing.\<close>

definition lacks_list :: "fetch_outcome \<Rightarrow> bool" where
  "lacks_list outcome \<longleftrightarrow>
     (case outcome of
        Rejected \<Rightarrow> False
      | Resolved None \<Rightarrow> True
      | Resolved (Some data) \<Rightarrow> resp_list data = None)"

text \<open>\<^verbatim>\<open>getData\<close> run from call to return, the promise settling as \<open>outcome\<close>.\<close>

definition getData :: "fetch_outcome \<Rightarrow> string \<Rightarrow> int \<Rightarrow> state \<Rightarrow> state" where
  "getData outcome sw page s =
     (case getData_begin sw page s of
        (s', None) \<Rightarrow> s'
      | (s', Some (kw, p)) \<Rightarrow> getData_resume p outcome s')"

subsection \<open>The handlers\<close>

text \<open>
  \<^verbatim>\<open>handleRefresh\<close> (lines 129-131): \<^verbatim>\<open>await getData(searchword, 1)\<close>, called while
  the state that made the handler is the present one.
\<close>

definition handleRefresh_begin :: "state \<Rightarrow> state \<times> request option" where
  "handleRefresh_begin s = getData_begin (searchword s) 1 s"

definition handleRefresh :: "fetch_outcome \<Rightarrow> state \<Rightarrow> state" where
  "handleRefresh outcome s = getData outcome (searchword s) 1 s"

text \<open>
  \<^verbatim>\<open>handleSearchSubmit\<close> (lines 146-148): \<^verbatim>\<open>getData(searchword, 1)\<close>, likewise.
\<close>

definition handleSearchSubmit_begin :: "state \<Rightarrow> state \<times> request option" where
  "handleSearchSubmit_begin s = getData_begin (searchword s) 1 s"

definition handleSearchSubmit :: "fetch_outcome \<Rightarrow> state \<Rightarrow> state" where
  "handleSearchSubmit outcome s = getData outcome (searchword s) 1 s"

text \<open>
  \<^verbatim>\<open>handleLoadMore\<close> (lines 136-141), as the render of the state \<open>r\<close> made it:
  \<^verbatim>\<open>isLoadingMore\<close>, \<^verbatim>\<open>pagination\<close> and \<^verbatim>\<open>searchword\<close> are constants of that render
  (the dependencies of its \<^verbatim>\<open>useCallback\<close>), and the ref holds what that render mounted;
  the setters act on the present state \<open>s\<close>. The guard returns at once. Otherwise
  \<^verbatim>\<open>isLoadingMore\<close> is turned on and \<^verbatim>\<open>getData\<close> is called for the page after
  \<^verbatim>\<open>pagination.currentPage\<close>; when \<^verbatim>\<open>getData\<close> returns without a fetch, the flag is
  turned off again right away.
\<close>

definition handleLoadMore_closure :: "state \<Rightarrow> state \<Rightarrow> state \<times> request option" where
  "handleLoadMore_closure r s =
     (if isLoadingMore r \<or> \<not> hasMore (pagination r) then (s, None)
      else (case getData_start (flatListRef_current r) (searchword r)
                   (currentPage (pagination r) + 1) (s\<lparr>isLoadingMore := True\<rparr>) of
              (s', None) \<Rightarrow> (s'\<lparr>isLoadingMore := False\<rparr>, None)
            | (s', Some req) \<Rightarrow> (s', Some req)))"

text \<open>
  The handler called while the state that made it is still the present one, that is, with
  a render since the last change of state.
\<close>

definition handleLoadMore_begin :: "state \<Rightarrow> state \<times> request option" where
  "handleLoadMore_begin s = handleLoadMore_closure s s"

text \<open>After the awaited \<^verbatim>\<open>getData\<close>: \<^verbatim>\<open>setIsLoadingMore(false)\<close> (line 140).\<close>

definition handleLoadMore_resume :: "int \<Rightarrow> fetch_outcome \<Rightarrow> state \<Rightarrow> state" where
  "handleLoadMore_resume page outcome s = (getData_resume page outcome s)\<lparr>isLoadingMore := False\<rparr>"

definition handleLoadMore :: "fetch_outcome \<Rightarrow> state \<Rightarrow> state" where
  "handleLoadMore outcome s =
     (case handleLoadMore_begin s of
        (s', None) \<Rightarrow> s'
      | (s', Some (kw, p)) \<Rightarrow> handleLoadMore_resume p outcome s')"

subsection \<open>The page as a transition system\<close>

text \<open>
  A handler that is waiting for its fetch: the \<^verbatim>\<open>getData\<close> of a search or refresh, or
  the \<^verbatim>\<open>getData\<close> inside \<^verbatim>\<open>handleLoadMore\<close>; each remembers its \<^verbatim>\<open>page\<close>.
\<close>

datatype pending = AwaitGetData int | AwaitLoadMore int

fun resume :: "pending \<Rightarrow> fetch_outcome \<Rightarrow> state \<Rightarrow> state" where
  "resume (AwaitGetData page) outcome s = getData_resume page outcome s"
| "resume (AwaitLoadMore page) outcome s = handleLoadMore_resume page outcome s"

definition suspend :: "(int \<Rightarrow> pending) \<Rightarrow> request option \<Rightarrow> pending list" where
  "suspend waiting r = (case r of None \<Rightarrow> [] | Some (kw, page) \<Rightarrow> [waiting page])"

text \<open>
  One event of the page: the text changes, a handler starts (the component has rendered
  since the event before, so the handler sees the present state), or one of the fetches
  in flight settles, in any order, and its handler goes on. A handler may also be called
  again before the component has rendered, and then still holds the constants of an earlier
  render; the last two rules admit such a call with any constants whatever, which is more
  than the page can do, so that what holds of every step holds of these calls as well.
\<close>

inductive step :: "state \<times> pending list \<Rightarrow> state \<times> pending list \<Rightarrow> bool" where
  onChangeText: "step (s, ps) (setSearchword text s, ps)"
| onSubmitEditing:
    "handleSearchSubmit_begin s = (s', r) \<Longrightarrow> step (s, ps) (s', ps @ suspend AwaitGetData r)"
| onRefresh:
    "handleRefresh_begin s = (s', r) \<Longrightarrow> step (s, ps) (s', ps @ suspend AwaitGetData r)"
| onEndReached:
    "handleLoadMore_begin s = (s', r) \<Longrightarrow> step (s, ps) (s', ps @ suspend AwaitLoadMore r)"
| settle: "p \<in> set ps \<Longrightarrow> step (s, ps) (resume p outcome s, remove1 p ps)"
| staleGetData:
    "getData_start mounted kw 1 s = (s', r) \<Longrightarrow> step (s, ps) (s', ps @ suspend AwaitGetData r)"
| staleLoadMore:
    "handleLoadMore_closure rendered s = (s', r) \<Longrightarrow>
     step (s, ps) (s', ps @ suspend AwaitLoadMore r)"

inductive reachable :: "state \<times> pending list \<Rightarrow> bool" where
  mount: "reachable (initial_state store, [])"
| event: "reachable c \<Longrightarrow> step c c' \<Longrightarrow> reachable c'"

text \<open>Every key shown has its record in the store.\<close>

definition cache_covers :: "state \<Rightarrow> bool" where
  "cache_covers s \<longleftrightarrow> (\<forall>key \<in> set (list_keys (dataObj s)). getVideoData key s \<noteq> None)"

subsection \<open>Sample data\<close>

definition example_pages :: DataObject where
  "example_pages = [(1, [''k1'', ''k2'']), (3, [''k3'', ''k2''])]"

definition empty_store :: "string \<rightharpoonup> TVideo" where
  "empty_store = Map.empty"

definition sample_movie :: "string \<Rightarrow> TVideo" where
  "sample_movie key =
     \<lparr>href = key, title = ''title'', year = ''2020'', cover = ''cover'', rating = ''8'',
      vtype = ''movie'', description = ''text''\<rparr>"

definition first_page :: SearchResult where
  "first_page =
     \<lparr>resp_list = Some [sample_movie ''k1'', sample_movie ''k2''],
      resp_pagination = \<lparr>resp_currentPage = 1, resp_totalPages = 9\<rparr>\<rparr>"

definition second_page :: SearchResult where
  "second_page =
     \<lparr>resp_list = Some [sample_movie ''k3'', sample_movie ''k4''],
      resp_pagination = \<lparr>resp_currentPage = 2, resp_totalPages = 9\<rparr>\<rparr>"

definition last_page :: SearchResult where
  "last_page =
     \<lparr>resp_list = Some [sample_movie ''k5''],
      resp_pagination = \<lparr>resp_currentPage = 2, resp_totalPages = 2\<rparr>\<rparr>"

definition skipped_page :: SearchResult where
  "skipped_page =
     \<lparr>resp_list = Some [sample_movie ''k9''],
      resp_pagination = \<lparr>resp_currentPage = 7, resp_totalPages = 9\<rparr>\<rparr>"

definition empty_page :: SearchResult where
  "empty_page =
     \<lparr>resp_list = Some [],
      resp_pagination = \<lparr>resp_currentPage = 1, resp_totalPages = 1\<rparr>\<rparr>"

definition listless :: SearchResult where
  "listless =
     \<lparr>resp_list = None,
      resp_pagination = \<lparr>resp_currentPage = 1, resp_totalPages = 1\<rparr>\<rparr>"

text \<open>The keyword \<open>a\<close> typed into the fresh page, and then submitted and answered.\<close>

definition typed_state :: state where
  "typed_state = setSearchword ''a'' (initial_state empty_store)"

definition searched_state :: state where
  "searched_state = handleSearchSubmit (Resolved (Some first_page)) typed_state"

text \<open>The same with the next page asked for and not yet answered.\<close>

definition loading_state :: state where
  "loading_state = fst (handleLoadMore_begin searched_state)"

text \<open>The second page answered; and a first page for another search.\<close>

definition two_pages_state :: state where
  "two_pages_state = handleLoadMore (Resolved (Some second_page)) searched_state"

definition fresh_page :: SearchResult where
  "fresh_page =
     \<lparr>resp_list = Some [sample_movie ''k5''],
      resp_pagination = \<lparr>resp_currentPage = 1, resp_totalPages = 1\<rparr>\<rparr>"

subsection \<open>Lemmas on objects\<close>

lemma obj_get_obj_put: "obj_get (obj_put k v obj) q = (if q = k then Some v else obj_get obj q)"
  by (induction obj) (auto simp: obj_get_def)

lemma set_keys_obj_put: "set (map fst (obj_put k v obj)) = insert k (set (map fst obj))"
  by (induction k v obj rule: obj_put.induct) (simp_all add: insert_commute)

lemma fold_push: "fold (\<lambda>key items. items @ f key) ks acc = acc @ concat (map f ks)"
  by (induction ks arbitrary: acc) auto

lemma list_keys_concat: "list_keys obj = concat (map (lodash_get obj) (own_keys obj))"
  by (simp add: list_keys_def fold_push)

lemma lodash_get_own: "distinct (map fst obj) \<Longrightarrow> map (lodash_get obj) (map fst obj) = map snd obj"
proof (induction obj)
  case Nil
  then show ?case by simp
next
  case (Cons p rest)
  obtain k v where p: "p = (k, v)" by (cases p)
  from Cons.prems p have k: "k \<notin> fst ` set rest" and d: "distinct (map fst rest)" by auto
  have "map (lodash_get (p # rest)) (map fst rest) = map (lodash_get rest) (map fst rest)"
    using k p by (auto simp: lodash_get_def obj_get_def)
  with Cons.IH [OF d] p show ?case
    by (simp add: lodash_get_def obj_get_def)
qed

lemma wf_obj_distinct: "wf_obj obj \<Longrightarrow> distinct (map fst obj)"
  by (induction obj rule: wf_obj.induct) simp_all

lemma list_keys_values: "wf_obj obj \<Longrightarrow> list_keys obj = concat (map snd obj)"
  using lodash_get_own [OF wf_obj_distinct, of obj]
  by (simp only: list_keys_concat own_keys_def)


lemma keys_obj_put: "fst ` set (obj_put k v obj) = insert k (fst ` set obj)"
  using set_keys_obj_put [of k v obj] by simp

lemma wf_obj_put: "wf_obj obj \<Longrightarrow> wf_obj (obj_put k v obj)"
proof (induction k v obj rule: obj_put.induct)
  case (1 k v)
  then show ?case by simp
next
  case (2 k v k' v' rest)
  from "2.prems" have wf_rest: "wf_obj rest" by simp
  show ?case
  proof (cases "k' = k")
    case True
    with "2.prems" show ?thesis by simp
  next
    case False
    show ?thesis
    proof (cases "is_array_index k \<and> (\<not> is_array_index k' \<or> k < k')")
      case True
      have fresh: "k \<notin> fst ` set rest"
        using True "2.prems" by auto
      have "wf_obj ((k, v) # (k', v') # rest)"
        using True False fresh "2.prems" by auto
      with False True show ?thesis by simp
    next
      case no_ins: False
      have "wf_obj (obj_put k v rest)"
        using "2.IH" [OF False no_ins wf_rest] .
      then have "wf_obj ((k', v') # obj_put k v rest)"
        using "2.prems" no_ins False by (auto simp: keys_obj_put)
      with False no_ins show ?thesis by simp
    qed
  qed
qed

lemma lodash_get_Nil: "lodash_get [] p = []"
  by (simp add: lodash_get_def obj_get_def)

lemma lodash_get_Cons: "lodash_get ((k, v) # rest) p = (if p = k then v else lodash_get rest p)"
  by (simp add: lodash_get_def obj_get_def)

lemma lodash_get_absent: "p \<notin> fst ` set obj \<Longrightarrow> lodash_get obj p = []"
  by (induction obj) (auto simp: lodash_get_Nil lodash_get_Cons)

lemma concat_empty_pages: "\<forall>p \<in> set ps. f p = [] \<Longrightarrow> concat (map f ps) = []"
  by (induction ps) auto

lemma concat_pages_upto:
  "wf_obj obj \<Longrightarrow> \<forall>k \<in> fst ` set obj. is_array_index k \<and> lo \<le> k \<and> k \<le> hi \<Longrightarrow>
   concat (map (lodash_get obj) [lo..hi]) = concat (map snd obj)"
proof (induction obj arbitrary: lo)
  case Nil
  show ?case by (simp add: concat_empty_pages lodash_get_Nil)
next
  case (Cons p rest)
  obtain k v where p: "p = (k, v)" by (cases p)
  from Cons.prems p have wf_rest: "wf_obj rest"
    and fresh: "k \<notin> fst ` set rest"
    and bounds: "lo \<le> k" "k \<le> hi" and idx: "is_array_index k"
    and later: "\<forall>q \<in> fst ` set rest. k < q"
    and rest_bounds: "\<forall>q \<in> fst ` set rest. is_array_index q \<and> q \<le> hi"
    by auto
  have split: "[lo..hi] = [lo..k - 1] @ k # [k + 1..hi]"
    using bounds by (rule upto_split3)
  have before: "concat (map (lodash_get (p # rest)) [lo..k - 1]) = []"
  proof (rule concat_empty_pages, rule ballI)
    fix q assume "q \<in> set [lo..k - 1]"
    then have "q < k" by simp
    with later have "q \<notin> fst ` set (p # rest)" using p by auto
    then show "lodash_get (p # rest) q = []" by (rule lodash_get_absent)
  qed
  have here: "lodash_get (p # rest) k = v"
    using p by (simp add: lodash_get_Cons)
  have same: "map (lodash_get (p # rest)) [k + 1..hi] = map (lodash_get rest) [k + 1..hi]"
    using p by (simp add: lodash_get_Cons)
  have "concat (map (lodash_get rest) [k + 1..hi]) = concat (map snd rest)"
    using wf_rest later rest_bounds by (intro Cons.IH) auto
  then have after: "concat (map (lodash_get (p # rest)) [k + 1..hi]) = concat (map snd rest)"
    by (simp only: same)
  show ?case
    using before here after p by (simp add: split)
qed

lemma fold_max_lower: "(m::int) \<le> fold max ks m"
  by (induction ks arbitrary: m) (auto intro: order_trans [OF max.cobounded2])

lemma fold_max_upper: "k \<in> set ks \<Longrightarrow> (k::int) \<le> fold max ks m"
  by (induction ks arbitrary: m) (auto intro: order_trans [OF max.cobounded1 fold_max_lower])

subsection \<open>The visible key sequence\<close>

text \<open>
  C1. For every page map (an object whose keys are page numbers from 1 on, below
  \<open>2\<^sup>3\<^sup>2 - 1\<close> as every array index is), the
  memo \<^verbatim>\<open>list\<close> is the concatenation of the key sequences of the pages 1, 2, ... up to
  the highest page held, in ascending order of the page number; a page that is not held
  contributes nothing, the keys of a page keep their order, and nothing is removed as a
  duplicate.
\<close>

theorem visible_keys_ascending_pages:
  "page_map obj \<Longrightarrow> list_keys obj = concat (map (lodash_get obj) [1..highest_page obj])"
proof -
  assume pm: "page_map obj"
  then have wf: "wf_obj obj" by (simp add: page_map_def)
  have "\<forall>k \<in> set (own_keys obj). k \<le> highest_page obj"
    by (simp add: highest_page_def fold_max_upper)
  with pm have "\<forall>k \<in> fst ` set obj. is_array_index k \<and> 1 \<le> k \<and> k \<le> highest_page obj"
    by (simp add: page_map_def own_keys_def)
  with wf have "concat (map (lodash_get obj) [1..highest_page obj]) = concat (map snd obj)"
    by (rule concat_pages_upto)
  with wf show ?thesis by (simp add: list_keys_values)
qed

theorem visible_keys_ascending_pages_witness:
  "page_map example_pages \<and>
   highest_page example_pages = 3 \<and>
   list_keys example_pages =
     concat (map (lodash_get example_pages) [1..highest_page example_pages]) \<and>
   list_keys example_pages = [''k1'', ''k2'', ''k3'', ''k2'']"
proof -
  have h: "page_map example_pages"
    by (simp add: example_pages_def page_map_def own_keys_def is_array_index_def)
  have top: "highest_page example_pages = 3"
    by (simp add: example_pages_def highest_page_def own_keys_def)
  have "concat (map (lodash_get example_pages) [1..3]) = [''k1'', ''k2'', ''k3'', ''k2'']"
    by (simp add: example_pages_def lodash_get_Cons lodash_get_Nil upto.simps)
  with visible_keys_ascending_pages [OF h] h top show ?thesis by simp
qed


subsection \<open>Fetching\<close>

lemma getData_begin_unfold:
  "getData_begin sw page s =
     (if sw = [] then (s, None)
      else ((if page \<le> 1 \<and> flatListRef_current s
             then s\<lparr>isRefreshing := True, effects := effects s @ [ScrollToOffset 0]\<rparr>
             else s)\<lparr>loading := True\<rparr>,
            Some (sw, page)))"
  by (simp add: getData_begin_def getData_start_def)

lemma getData_start_frame:
  "getData_start mounted sw page s = (s', r) \<Longrightarrow>
     dataObj s' = dataObj s \<and> pagination s' = pagination s \<and> searchword s' = searchword s \<and>
     videoData s' = videoData s \<and> isLoadingMore s' = isLoadingMore s"
  by (auto simp: getData_start_def split: if_splits)

lemma handleLoadMore_begin_unfold:
  "handleLoadMore_begin s =
     (if isLoadingMore s \<or> \<not> hasMore (pagination s) then (s, None)
      else (case getData_begin (searchword s) (currentPage (pagination s) + 1)
                   (s\<lparr>isLoadingMore := True\<rparr>) of
              (s', None) \<Rightarrow> (s'\<lparr>isLoadingMore := False\<rparr>, None)
            | (s', Some req) \<Rightarrow> (s', Some req)))"
  by (simp add: handleLoadMore_begin_def handleLoadMore_closure_def getData_begin_def
        getData_start_def flatListRef_current_def)

lemma getData_resume_Rejected:
  "getData_resume page Rejected s =
     s\<lparr>effects := effects s @ [ConsoleError], loading := False, isRefreshing := False\<rparr>"
  by (simp add: getData_resume_def)

lemma getData_resume_lacks:
  "lacks_list outcome \<Longrightarrow> getData_resume page outcome s = s\<lparr>loading := False, isRefreshing := False\<rparr>"
  by (auto simp: getData_resume_def lacks_list_def split: fetch_outcome.splits option.splits)

lemma getData_resume_success:
  "resp_list data = Some movies \<Longrightarrow>
   getData_resume page (Resolved (Some data)) s =
     (setPagination (resp_pagination data) (setDataObj page movies (save_movies movies s)))
       \<lparr>loading := False, isRefreshing := False\<rparr>"
  by (simp add: getData_resume_def)

lemma save_movies_frame:
  "dataObj (save_movies movies s) = dataObj s"
  "pagination (save_movies movies s) = pagination s"
  "searchword (save_movies movies s) = searchword s"
  "isLoadingMore (save_movies movies s) = isLoadingMore s"
  "loading (save_movies movies s) = loading s"
  "isRefreshing (save_movies movies s) = isRefreshing s"
  "effects (save_movies movies s) = effects s"
  by (induction movies arbitrary: s; simp add: save_movies_def updateVideoData_def)+

lemma getData_begin_frame:
  "getData_begin sw page s = (s', r) \<Longrightarrow>
     dataObj s' = dataObj s \<and> pagination s' = pagination s \<and> searchword s' = searchword s \<and>
     videoData s' = videoData s \<and> isLoadingMore s' = isLoadingMore s"
  by (auto simp: getData_begin_unfold split: if_splits)

lemma getData_begin_request:
  "snd (getData_begin sw page s) = (if sw = [] then None else Some (sw, page))"
  by (simp add: getData_begin_unfold)

lemma getData_begin_empty: "getData_begin [] page s = (s, None)"
  by (simp add: getData_begin_unfold)

lemma getData_unfold:
  "getData outcome sw page s =
     (if sw = [] then s else getData_resume page outcome (fst (getData_begin sw page s)))"
  by (simp add: getData_def getData_begin_unfold)

lemma handleLoadMore_begin_guard:
  "isLoadingMore s \<or> \<not> hasMore (pagination s) \<Longrightarrow> handleLoadMore_begin s = (s, None)"
  by (auto simp: handleLoadMore_begin_unfold)

lemma handleLoadMore_begin_empty:
  "searchword s = [] \<Longrightarrow> handleLoadMore_begin s = (s, None)"
  by (cases "isLoadingMore s") (auto simp: handleLoadMore_begin_unfold getData_begin_unfold)

lemma handleLoadMore_begin_fetch:
  "\<not> isLoadingMore s \<Longrightarrow> hasMore (pagination s) \<Longrightarrow> searchword s \<noteq> [] \<Longrightarrow>
   handleLoadMore_begin s =
     (fst (getData_begin (searchword s) (currentPage (pagination s) + 1) (s\<lparr>isLoadingMore := True\<rparr>)),
      Some (searchword s, currentPage (pagination s) + 1))"
  by (simp add: handleLoadMore_begin_unfold getData_begin_unfold)

lemma handleLoadMore_begin_Some:
  assumes "handleLoadMore_begin s = (s1, Some req)"
  shows "\<not> isLoadingMore s" and "hasMore (pagination s)" and "searchword s \<noteq> []"
    and "req = (searchword s, currentPage (pagination s) + 1)"
    and "isLoadingMore s1" and "dataObj s1 = dataObj s" and "pagination s1 = pagination s"
    and "searchword s1 = searchword s" and "videoData s1 = videoData s"
proof -
  from assms show g1: "\<not> isLoadingMore s" and g2: "hasMore (pagination s)"
    by (auto simp: handleLoadMore_begin_unfold split: if_splits)
  from assms show g3: "searchword s \<noteq> []"
    using handleLoadMore_begin_empty [of s] by auto
  from handleLoadMore_begin_fetch [OF g1 g2 g3] assms
  have s1: "s1 = fst (getData_begin (searchword s) (currentPage (pagination s) + 1) (s\<lparr>isLoadingMore := True\<rparr>))"
    and req: "req = (searchword s, currentPage (pagination s) + 1)" by simp_all
  from req show "req = (searchword s, currentPage (pagination s) + 1)" .
  from s1 show "isLoadingMore s1" and "dataObj s1 = dataObj s" and "pagination s1 = pagination s"
    and "searchword s1 = searchword s" and "videoData s1 = videoData s"
    by (simp_all add: getData_begin_unfold)
qed

lemma handleLoadMore_unfold:
  "handleLoadMore outcome s =
     (if isLoadingMore s \<or> \<not> hasMore (pagination s) \<or> searchword s = [] then s
      else handleLoadMore_resume (currentPage (pagination s) + 1) outcome (fst (handleLoadMore_begin s)))"
  by (auto simp: handleLoadMore_def handleLoadMore_begin_guard handleLoadMore_begin_empty
        handleLoadMore_begin_fetch)

lemma getData_lacks_frame:
  assumes "lacks_list outcome"
  shows "dataObj (getData outcome sw page s) = dataObj s"
    and "pagination (getData outcome sw page s) = pagination s"
  using assms by (simp_all add: getData_unfold getData_resume_lacks getData_begin_unfold)

lemma getData_Rejected_frame:
  "dataObj (getData Rejected sw page s) = dataObj s"
  "pagination (getData Rejected sw page s) = pagination s"
  by (simp_all add: getData_unfold getData_resume_Rejected getData_begin_unfold)

text \<open>
  C7. When the fetch settles with a value that has no \<^verbatim>\<open>list\<close> (or with no value at
  all), nothing but the two flags of the \<^verbatim>\<open>finally\<close> block changes: the page map, the
  pagination and the visible sequence stay as they are, nothing is logged as an error, and
  \<^verbatim>\<open>loading\<close> and \<^verbatim>\<open>isRefreshing\<close> are off afterwards (as is \<^verbatim>\<open>isLoadingMore\<close> when
  the fetch was a load-more).
\<close>

theorem soft_no_op_without_list:
  "lacks_list outcome \<Longrightarrow>
     getData_resume page outcome s = s\<lparr>loading := False, isRefreshing := False\<rparr> \<and>
     handleLoadMore_resume page outcome s =
       s\<lparr>loading := False, isRefreshing := False, isLoadingMore := False\<rparr> \<and>
     dataObj (getData_resume page outcome s) = dataObj s \<and>
     pagination (getData_resume page outcome s) = pagination s \<and>
     list_keys (dataObj (getData_resume page outcome s)) = list_keys (dataObj s) \<and>
     effects (getData_resume page outcome s) = effects s \<and>
     \<not> loading (getData_resume page outcome s) \<and>
     \<not> isRefreshing (getData_resume page outcome s) \<and>
     dataObj (handleSearchSubmit outcome s) = dataObj s \<and>
     pagination (handleSearchSubmit outcome s) = pagination s \<and>
     dataObj (handleRefresh outcome s) = dataObj s \<and>
     pagination (handleRefresh outcome s) = pagination s \<and>
     dataObj (handleLoadMore outcome s) = dataObj s \<and>
     pagination (handleLoadMore outcome s) = pagination s"
  by (simp add: getData_resume_lacks handleLoadMore_resume_def handleSearchSubmit_def
        handleRefresh_def getData_lacks_frame handleLoadMore_unfold handleLoadMore_begin_fetch
        getData_begin_unfold)

text \<open>
  The guard, for a call by the handler of the latest render: with \<^verbatim>\<open>isLoadingMore\<close> on
  or \<^verbatim>\<open>hasMore\<close> off nothing is sent and nothing changes; a call that passes the guard
  with a keyword asks for \<^verbatim>\<open>currentPage + 1\<close>, and the handler of the render that follows
  it sends nothing; after a fetch has settled successfully with \<^verbatim>\<open>currentPage\<close> at
  \<^verbatim>\<open>totalPages\<close> or beyond, the handler of the render that follows sends nothing.
\<close>

lemma loadMore_guard_after_render:
  "(isLoadingMore s \<or> \<not> hasMore (pagination s) \<longrightarrow>
      handleLoadMore_begin s = (s, None) \<and> handleLoadMore outcome s = s) \<and>
   (\<not> isLoadingMore s \<and> hasMore (pagination s) \<and> searchword s \<noteq> [] \<longrightarrow>
      snd (handleLoadMore_begin s) = Some (searchword s, currentPage (pagination s) + 1)) \<and>
   (\<forall>s1 req. handleLoadMore_begin s = (s1, Some req) \<longrightarrow>
      req = (searchword s, currentPage (pagination s) + 1) \<and>
      handleLoadMore_begin s1 = (s1, None)) \<and>
   (\<forall>data movies. resp_list data = Some movies \<and>
      resp_totalPages (resp_pagination data) \<le> resp_currentPage (resp_pagination data) \<longrightarrow>
      handleLoadMore_begin (resume p (Resolved (Some data)) s) =
        (resume p (Resolved (Some data)) s, None))"
proof (intro conjI allI impI)
  assume "isLoadingMore s \<or> \<not> hasMore (pagination s)"
  then show "handleLoadMore_begin s = (s, None)" by (rule handleLoadMore_begin_guard)
  then show "handleLoadMore outcome s = s" by (simp add: handleLoadMore_def)
next
  assume "\<not> isLoadingMore s \<and> hasMore (pagination s) \<and> searchword s \<noteq> []"
  then show "snd (handleLoadMore_begin s) = Some (searchword s, currentPage (pagination s) + 1)"
    by (simp add: handleLoadMore_begin_fetch)
next
  fix s1 req assume b: "handleLoadMore_begin s = (s1, Some req)"
  then show "req = (searchword s, currentPage (pagination s) + 1)"
    by (rule handleLoadMore_begin_Some)
  from b have "isLoadingMore s1" by (rule handleLoadMore_begin_Some)
  then show "handleLoadMore_begin s1 = (s1, None)" by (simp add: handleLoadMore_begin_guard)
next
  fix data :: SearchResult and movies
  assume a: "resp_list data = Some movies \<and>
      resp_totalPages (resp_pagination data) \<le> resp_currentPage (resp_pagination data)"
  then have "\<not> hasMore (pagination (getData_resume page (Resolved (Some data)) s))" for page
    by (simp add: getData_resume_success setPagination_def)
  then have "\<not> hasMore (pagination (resume p (Resolved (Some data)) s))"
    by (cases p) (simp_all add: handleLoadMore_resume_def)
  then show "handleLoadMore_begin (resume p (Resolved (Some data)) s) =
        (resume p (Resolved (Some data)) s, None)"
    by (simp add: handleLoadMore_begin_guard)
qed

text \<open>
  C5. When the fetch rejects, the error is logged and nothing else changes but the flags:
  the page map, the pagination and the visible sequence stay as they are, \<^verbatim>\<open>loading\<close>
  and \<^verbatim>\<open>isRefreshing\<close> are off, and so is \<^verbatim>\<open>isLoadingMore\<close> after a load-more. A
  load-more that follows a failed load-more sends the very same request, for
  \<^verbatim>\<open>currentPage + 1\<close>.
\<close>

theorem failed_fetch_preserves_state:
  "getData_resume page Rejected s =
     s\<lparr>effects := effects s @ [ConsoleError], loading := False, isRefreshing := False\<rparr> \<and>
   handleLoadMore_resume page Rejected s =
     s\<lparr>effects := effects s @ [ConsoleError], loading := False, isRefreshing := False,
       isLoadingMore := False\<rparr> \<and>
   dataObj (getData_resume page Rejected s) = dataObj s \<and>
   pagination (getData_resume page Rejected s) = pagination s \<and>
   list_keys (dataObj (getData_resume page Rejected s)) = list_keys (dataObj s) \<and>
   \<not> loading (getData_resume page Rejected s) \<and>
   \<not> isRefreshing (getData_resume page Rejected s) \<and>
   \<not> isLoadingMore (handleLoadMore_resume page Rejected s) \<and>
   dataObj (handleSearchSubmit Rejected s) = dataObj s \<and>
   pagination (handleSearchSubmit Rejected s) = pagination s \<and>
   dataObj (handleRefresh Rejected s) = dataObj s \<and>
   pagination (handleRefresh Rejected s) = pagination s \<and>
   (\<forall>s1 req. handleLoadMore_begin s = (s1, Some req) \<longrightarrow>
      snd req = currentPage (pagination s) + 1 \<and>
      dataObj (handleLoadMore Rejected s) = dataObj s \<and>
      pagination (handleLoadMore Rejected s) = pagination s \<and>
      snd (handleLoadMore_begin (handleLoadMore Rejected s)) = Some req)"
proof (intro conjI allI impI)
  fix s1 req assume b: "handleLoadMore_begin s = (s1, Some req)"
  note facts = handleLoadMore_begin_Some [OF b]
  from facts(4) show "snd req = currentPage (pagination s) + 1" by simp
  have after: "handleLoadMore Rejected s = handleLoadMore_resume (snd req) Rejected s1"
    using b facts(4) by (simp add: handleLoadMore_def)
  let ?s2 = "handleLoadMore_resume (snd req) Rejected s1"
  have s2: "\<not> isLoadingMore ?s2" "pagination ?s2 = pagination s" "searchword ?s2 = searchword s"
    "dataObj ?s2 = dataObj s"
    using facts by (simp_all add: handleLoadMore_resume_def getData_resume_Rejected)
  from s2 after show "dataObj (handleLoadMore Rejected s) = dataObj s"
    and "pagination (handleLoadMore Rejected s) = pagination s" by simp_all
  have "handleLoadMore_begin ?s2 =
     (fst (getData_begin (searchword ?s2) (currentPage (pagination ?s2) + 1) (?s2\<lparr>isLoadingMore := True\<rparr>)),
      Some (searchword ?s2, currentPage (pagination ?s2) + 1))"
    using s2 facts by (intro handleLoadMore_begin_fetch) simp_all
  then have "snd (handleLoadMore_begin ?s2) = Some (searchword s, currentPage (pagination s) + 1)"
    using s2 by simp
  with after facts(4) show "snd (handleLoadMore_begin (handleLoadMore Rejected s)) = Some req"
    by simp
qed (simp_all add: getData_resume_Rejected handleLoadMore_resume_def handleSearchSubmit_def
      handleRefresh_def getData_Rejected_frame)

text \<open>
  C10. A response whose \<^verbatim>\<open>list\<close> is the empty array is a success like any other: the
  entry of the fetched page becomes the empty sequence (for page 1 the whole object becomes
  \<^verbatim>\<open>{ 1: [] }\<close>), and \<^verbatim>\<open>currentPage\<close>, \<^verbatim>\<open>totalPages\<close> and \<^verbatim>\<open>hasMore\<close> are set from
  the response's pagination.
\<close>

theorem empty_list_is_success:
  "resp_list data = Some [] \<Longrightarrow>
     getData_resume page (Resolved (Some data)) s =
       s\<lparr>dataObj := (if page = 1 then [(1, [])] else obj_put page [] (dataObj s)),
         pagination := \<lparr>currentPage = resp_currentPage (resp_pagination data),
                         totalPages = resp_totalPages (resp_pagination data),
                         hasMore = resp_currentPage (resp_pagination data)
                                   < resp_totalPages (resp_pagination data)\<rparr>,
         loading := False, isRefreshing := False\<rparr> \<and>
     obj_get (dataObj (getData_resume page (Resolved (Some data)) s)) page = Some [] \<and>
     (page = 1 \<longrightarrow> dataObj (getData_resume page (Resolved (Some data)) s) = [(1, [])]) \<and>
     \<not> lacks_list (Resolved (Some data))"
  by (simp add: getData_resume_success save_movies_def setDataObj_def setPagination_def
        obj_get_obj_put lacks_list_def) (simp add: obj_get_def)

lemma list_keys_single: "list_keys [(k, v)] = v"
  by (simp add: list_keys_def own_keys_def lodash_get_def obj_get_def)

lemma getData_resume_page1:
  "resp_list data = Some movies \<Longrightarrow>
   dataObj (getData_resume 1 (Resolved (Some data)) s) = [(1, map href movies)]"
  by (simp add: getData_resume_success setPagination_def setDataObj_def)

text \<open>
  C2. Whatever pages the object holds, a search submit or a refresh (with a keyword) whose
  page-1 fetch succeeds leaves the object \<^verbatim>\<open>{ 1: hrefs }\<close> with the keys of the response:
  the visible sequence is exactly that list of keys and no other page is held any more.
\<close>

theorem page1_fetch_resets_page_map:
  assumes kw: "searchword s \<noteq> []" and ok: "resp_list data = Some movies"
  shows "dataObj (getData_resume 1 (Resolved (Some data)) s) = [(1, map href movies)] \<and>
     dataObj (handleSearchSubmit (Resolved (Some data)) s) = [(1, map href movies)] \<and>
     dataObj (handleRefresh (Resolved (Some data)) s) = [(1, map href movies)] \<and>
     list_keys (dataObj (handleSearchSubmit (Resolved (Some data)) s)) = map href movies \<and>
     list_keys (dataObj (handleRefresh (Resolved (Some data)) s)) = map href movies \<and>
     (\<forall>p. p \<noteq> 1 \<longrightarrow> obj_get (dataObj (handleSearchSubmit (Resolved (Some data)) s)) p = None \<and>
                     obj_get (dataObj (handleRefresh (Resolved (Some data)) s)) p = None)"
proof -
  have "dataObj (getData (Resolved (Some data)) (searchword s) 1 s) = [(1, map href movies)]"
    using kw ok by (simp add: getData_unfold getData_resume_page1)
  then have "dataObj (handleSearchSubmit (Resolved (Some data)) s) = [(1, map href movies)]"
    and "dataObj (handleRefresh (Resolved (Some data)) s) = [(1, map href movies)]"
    by (simp_all add: handleSearchSubmit_def handleRefresh_def)
  then show ?thesis
    using ok by (simp add: getData_resume_page1 list_keys_single obj_get_def)
qed

lemma filter_obj_put:
  "filter (\<lambda>entry. fst entry \<noteq> k) (obj_put k v obj) = filter (\<lambda>entry. fst entry \<noteq> k) obj"
  by (induction k v obj rule: obj_put.induct) simp_all

text \<open>
  C8. A successful fetch of a page \<open>p > 1\<close> sets the entry of \<open>p\<close> to the keys of the
  response and leaves every other entry of the object, and their order, as it was.
\<close>

theorem later_page_writes_only_its_entry:
  assumes "1 < page" and ok: "resp_list data = Some movies"
  shows "obj_get (dataObj (getData_resume page (Resolved (Some data)) s)) page = Some (map href movies) \<and>
     (\<forall>q. q \<noteq> page \<longrightarrow>
        obj_get (dataObj (getData_resume page (Resolved (Some data)) s)) q = obj_get (dataObj s) q) \<and>
     filter (\<lambda>entry. fst entry \<noteq> page) (dataObj (getData_resume page (Resolved (Some data)) s)) =
       filter (\<lambda>entry. fst entry \<noteq> page) (dataObj s) \<and>
     dataObj (handleLoadMore_resume page (Resolved (Some data)) s) =
       dataObj (getData_resume page (Resolved (Some data)) s)"
proof -
  from assms have "dataObj (getData_resume page (Resolved (Some data)) s) =
      obj_put page (map href movies) (dataObj s)"
    by (simp add: getData_resume_success setPagination_def setDataObj_def save_movies_frame)
  then show ?thesis
    by (simp add: obj_get_obj_put filter_obj_put handleLoadMore_resume_def)
qed

text \<open>
  C9. \<^verbatim>\<open>handleRefresh\<close> and \<^verbatim>\<open>handleSearchSubmit\<close> are the same state transformer, the
  \<^verbatim>\<open>getData\<close> of the current keyword and page 1: they send the same request and treat
  its outcome alike. With the empty keyword a refresh sends nothing and changes nothing.
\<close>

theorem refresh_is_search_submit:
  "handleRefresh_begin s = handleSearchSubmit_begin s \<and>
   handleRefresh outcome s = handleSearchSubmit outcome s \<and>
   handleRefresh_begin s = getData_begin (searchword s) 1 s \<and>
   handleRefresh outcome s = getData outcome (searchword s) 1 s \<and>
   (searchword s = [] \<longrightarrow> handleRefresh_begin s = (s, None) \<and> handleRefresh outcome s = s)"
  by (simp add: handleRefresh_begin_def handleSearchSubmit_begin_def handleRefresh_def
        handleSearchSubmit_def getData_unfold getData_begin_empty)

lemma in_list_keys_iff:
  "key \<in> set (list_keys obj) \<longleftrightarrow> (\<exists>k v. obj_get obj k = Some v \<and> key \<in> set v)"
proof
  assume "key \<in> set (list_keys obj)"
  then obtain k where "k \<in> set (own_keys obj)" and in_k: "key \<in> set (lodash_get obj k)"
    by (auto simp: list_keys_concat)
  from in_k show "\<exists>k v. obj_get obj k = Some v \<and> key \<in> set v"
    by (cases "obj_get obj k") (auto simp: lodash_get_def)
next
  assume "\<exists>k v. obj_get obj k = Some v \<and> key \<in> set v"
  then obtain k v where get: "obj_get obj k = Some v" and key: "key \<in> set v" by blast
  from get have "(k, v) \<in> set obj" by (simp add: obj_get_def map_of_SomeD)
  then have "k \<in> set (own_keys obj)" by (force simp: own_keys_def)
  moreover from get key have "key \<in> set (lodash_get obj k)" by (simp add: lodash_get_def)
  ultimately show "key \<in> set (list_keys obj)" by (auto simp: list_keys_concat)
qed

lemma save_movies_keeps: "videoData s key \<noteq> None \<Longrightarrow> videoData (save_movies movies s) key \<noteq> None"
  by (induction movies arbitrary: s) (simp_all add: save_movies_def updateVideoData_def)

lemma save_movies_saves:
  "movie \<in> set movies \<Longrightarrow> videoData (save_movies movies s) (href movie) \<noteq> None"
proof (induction movies arbitrary: s)
  case Nil
  then show ?case by simp
next
  case (Cons m movies)
  have unfold: "save_movies (m # movies) s = save_movies movies (updateVideoData (href m) m s)"
    by (simp add: save_movies_def)
  show ?case
  proof (cases "movie \<in> set movies")
    case True
    then show ?thesis unfolding unfold by (rule Cons.IH)
  next
    case False
    with Cons.prems have "movie = m" by simp
    then have "videoData (updateVideoData (href m) m s) (href movie) \<noteq> None"
      by (simp add: updateVideoData_def)
    then show ?thesis unfolding unfold by (rule save_movies_keeps)
  qed
qed

lemma cache_covers_success:
  assumes inv: "cache_covers s" and ok: "resp_list data = Some movies"
  shows "cache_covers (getData_resume page (Resolved (Some data)) s)"
proof -
  let ?s' = "getData_resume page (Resolved (Some data)) s"
  have store: "videoData ?s' = videoData (save_movies movies s)"
    using ok by (simp add: getData_resume_success setPagination_def setDataObj_def)
  have obj: "dataObj ?s' = (if page = 1 then [(1, map href movies)]
                            else obj_put page (map href movies) (dataObj s))"
    using ok by (simp add: getData_resume_success setPagination_def setDataObj_def save_movies_frame)
  have "videoData (save_movies movies s) key \<noteq> None" if "key \<in> set (list_keys (dataObj ?s'))" for key
  proof -
    from that obtain k v where get: "obj_get (dataObj ?s') k = Some v" and key: "key \<in> set v"
      by (auto simp: in_list_keys_iff)
    have "v = map href movies \<or> obj_get (dataObj s) k = Some v"
    proof (cases "page = 1")
      case True
      with get obj show ?thesis by (simp add: obj_get_def split: if_splits)
    next
      case False
      with get obj show ?thesis by (simp add: obj_get_obj_put split: if_splits)
    qed
    then show ?thesis
    proof
      assume "v = map href movies"
      with key obtain movie where "movie \<in> set movies" and "key = href movie" by auto
      then show ?thesis by (simp add: save_movies_saves)
    next
      assume "obj_get (dataObj s) k = Some v"
      with key have "key \<in> set (list_keys (dataObj s))" by (auto simp: in_list_keys_iff)
      with inv have "videoData s key \<noteq> None" by (simp add: cache_covers_def getVideoData_def)
      then show ?thesis by (rule save_movies_keeps)
    qed
  qed
  then show ?thesis by (simp add: cache_covers_def getVideoData_def store)
qed

lemma cache_covers_same:
  "cache_covers s \<Longrightarrow> dataObj s' = dataObj s \<Longrightarrow> videoData s' = videoData s \<Longrightarrow> cache_covers s'"
  by (simp add: cache_covers_def getVideoData_def)

lemma cache_covers_getData_resume:
  "cache_covers s \<Longrightarrow> cache_covers (getData_resume page outcome s)"
proof (cases outcome)
  case Rejected
  assume "cache_covers s"
  then show ?thesis
    using Rejected by (simp add: getData_resume_Rejected cache_covers_def getVideoData_def)
next
  case (Resolved res)
  assume inv: "cache_covers s"
  show ?thesis
  proof (cases "lacks_list outcome")
    case True
    with inv show ?thesis
      by (simp add: getData_resume_lacks cache_covers_def getVideoData_def)
  next
    case False
    with Resolved obtain data movies where "res = Some data" and "resp_list data = Some movies"
      by (cases res) (auto simp: lacks_list_def)
    with inv Resolved show ?thesis by (simp add: cache_covers_success)
  qed
qed

lemma cache_covers_resume: "cache_covers s \<Longrightarrow> cache_covers (resume p outcome s)"
proof (cases p)
  case (AwaitGetData page)
  assume "cache_covers s"
  with AwaitGetData show ?thesis by (simp add: cache_covers_getData_resume)
next
  case (AwaitLoadMore page)
  assume "cache_covers s"
  then have "cache_covers (getData_resume page outcome s)" by (rule cache_covers_getData_resume)
  then show ?thesis
    using AwaitLoadMore by (simp add: handleLoadMore_resume_def cache_covers_def getVideoData_def)
qed

lemma handleLoadMore_closure_guard:
  "isLoadingMore r \<or> \<not> hasMore (pagination r) \<Longrightarrow> handleLoadMore_closure r s = (s, None)"
  by (auto simp: handleLoadMore_closure_def)

lemma handleLoadMore_closure_fetch:
  "\<not> isLoadingMore r \<Longrightarrow> hasMore (pagination r) \<Longrightarrow> searchword r \<noteq> [] \<Longrightarrow>
   handleLoadMore_closure r s =
     (fst (getData_start (flatListRef_current r) (searchword r) (currentPage (pagination r) + 1)
            (s\<lparr>isLoadingMore := True\<rparr>)),
      Some (searchword r, currentPage (pagination r) + 1))"
  by (simp add: handleLoadMore_closure_def getData_start_def)

lemma handleLoadMore_closure_frame:
  assumes "handleLoadMore_closure r s = (s', req)"
  shows "dataObj s' = dataObj s \<and> pagination s' = pagination s \<and> searchword s' = searchword s \<and>
     videoData s' = videoData s"
proof (cases "isLoadingMore r \<or> \<not> hasMore (pagination r)")
  case True
  with assms show ?thesis by (simp add: handleLoadMore_closure_guard)
next
  case False
  with assms show ?thesis
    by (cases "searchword r = []") (auto simp: handleLoadMore_closure_def getData_start_def)
qed

lemma handleLoadMore_begin_frame:
  assumes "handleLoadMore_begin s = (s', r)"
  shows "dataObj s' = dataObj s" and "videoData s' = videoData s" and "pagination s' = pagination s"
proof -
  have "dataObj s' = dataObj s \<and> videoData s' = videoData s \<and> pagination s' = pagination s"
  proof (cases r)
    case None
    with assms have "s' = s"
      by (auto simp: handleLoadMore_begin_unfold getData_begin_unfold split: if_splits)
    then show ?thesis by simp
  next
    case (Some req)
    with assms show ?thesis using handleLoadMore_begin_Some [of s s' req] by simp
  qed
  then show "dataObj s' = dataObj s" and "videoData s' = videoData s"
    and "pagination s' = pagination s" by simp_all
qed

lemma step_cache_covers:
  assumes "step c c'" and "cache_covers (fst c)"
  shows "cache_covers (fst c')"
  using assms
proof (induction rule: step.induct)
  case (onChangeText s ps t)
  then show ?case by (simp add: setSearchword_def cache_covers_def getVideoData_def)
next
  case (onSubmitEditing s s' r ps)
  then have "getData_begin (searchword s) 1 s = (s', r)"
    by (simp add: handleSearchSubmit_begin_def)
  from getData_begin_frame [OF this] onSubmitEditing.prems show ?case
    by (auto intro: cache_covers_same)
next
  case (onRefresh s s' r ps)
  then have "getData_begin (searchword s) 1 s = (s', r)"
    by (simp add: handleRefresh_begin_def)
  from getData_begin_frame [OF this] onRefresh.prems show ?case
    by (auto intro: cache_covers_same)
next
  case (onEndReached s s' r ps)
  from handleLoadMore_begin_frame [OF onEndReached.hyps] onEndReached.prems show ?case
    by (auto intro: cache_covers_same)
next
  case (settle p ps s outcome)
  then show ?case by (simp add: cache_covers_resume)
next
  case (staleGetData mounted kw s s' r ps)
  from getData_start_frame [OF staleGetData.hyps] staleGetData.prems show ?case
    by (auto intro: cache_covers_same)
next
  case (staleLoadMore rendered s s' r ps)
  from handleLoadMore_closure_frame [OF staleLoadMore.hyps] staleLoadMore.prems show ?case
    by (auto intro: cache_covers_same)
qed

lemma reachable_cache_covers: "reachable c \<Longrightarrow> cache_covers (fst c)"
proof (induction rule: reachable.induct)
  case (mount store)
  show ?case
    by (simp add: cache_covers_def initial_state_def list_keys_def own_keys_def)
next
  case (event c c')
  then show ?case by (simp add: step_cache_covers)
qed

text \<open>
  C3. On a successful fetch the records are saved first: in the state after the saving
  every record of the response is found in the store while the page map and the pagination
  are still the old ones. In every state the page can reach, once the handler has run
  after a successful fetch (of any page), every key of the visible sequence is found in
  the store.
\<close>

theorem cache_precedes_visibility:
  assumes r: "reachable (s, ps)" and ok: "resp_list data = Some movies"
  shows "getData_resume page (Resolved (Some data)) s =
       (setPagination (resp_pagination data) (setDataObj page movies (save_movies movies s)))
         \<lparr>loading := False, isRefreshing := False\<rparr> \<and>
     (\<forall>movie \<in> set movies. getVideoData (href movie) (save_movies movies s) \<noteq> None) \<and>
     dataObj (save_movies movies s) = dataObj s \<and>
     pagination (save_movies movies s) = pagination s \<and>
     (\<forall>key \<in> set (list_keys (dataObj (resume p (Resolved (Some data)) s))).
        getVideoData key (resume p (Resolved (Some data)) s) \<noteq> None)"
proof -
  from r have "cache_covers s" using reachable_cache_covers [of "(s, ps)"] by simp
  then have "cache_covers (resume p (Resolved (Some data)) s)" by (rule cache_covers_resume)
  then show ?thesis
    using ok
    by (simp add: getData_resume_success save_movies_saves save_movies_frame
          getVideoData_def cache_covers_def)
qed

lemma typed_state_simps:
  "searchword typed_state = ''a''" "dataObj typed_state = []" "\<not> loading typed_state"
  "\<not> isLoadingMore typed_state" "pagination typed_state = \<lparr>currentPage = 1, totalPages = 1, hasMore = True\<rparr>"
  by (simp_all add: typed_state_def setSearchword_def initial_state_def)

lemma searched_state_resume:
  "searched_state =
     resume (AwaitGetData 1) (Resolved (Some first_page)) (fst (handleSearchSubmit_begin typed_state))"
  by (simp add: searched_state_def handleSearchSubmit_def handleSearchSubmit_begin_def
        getData_unfold typed_state_simps)

lemma searched_state_simps:
  "searchword searched_state = ''a''"
  "dataObj searched_state = [(1, [''k1'', ''k2''])]"
  "\<not> isLoadingMore searched_state"
  "pagination searched_state = \<lparr>currentPage = 1, totalPages = 9, hasMore = True\<rparr>"
  by (simp_all add: searched_state_def handleSearchSubmit_def getData_unfold typed_state_simps
        getData_resume_def first_page_def setPagination_def setDataObj_def save_movies_frame
        getData_begin_unfold sample_movie_def)

lemma searched_state_reachable: "reachable (searched_state, [])"
proof -
  have "reachable (initial_state empty_store, [])" by (rule reachable.mount)
  moreover have "step (initial_state empty_store, []) (typed_state, [])"
    unfolding typed_state_def by (rule step.onChangeText)
  ultimately have typed: "reachable (typed_state, [])" by (rule reachable.event)
  let ?s1 = "fst (handleSearchSubmit_begin typed_state)"
  have "handleSearchSubmit_begin typed_state = (?s1, Some (''a'', 1))"
    by (simp add: handleSearchSubmit_begin_def getData_begin_unfold typed_state_simps)
  then have "step (typed_state, []) (?s1, [] @ suspend AwaitGetData (Some (''a'', 1)))"
    by (rule step.onSubmitEditing)
  then have "step (typed_state, []) (?s1, [AwaitGetData 1])" by (simp add: suspend_def)
  with typed have waiting: "reachable (?s1, [AwaitGetData 1])" by (rule reachable.event)
  have "step (?s1, [AwaitGetData 1])
     (resume (AwaitGetData 1) (Resolved (Some first_page)) ?s1, remove1 (AwaitGetData 1) [AwaitGetData 1])"
    by (rule step.settle) simp
  with waiting have "reachable (resume (AwaitGetData 1) (Resolved (Some first_page)) ?s1,
      remove1 (AwaitGetData 1) [AwaitGetData 1])" by (rule reachable.event)
  then show ?thesis by (simp add: searched_state_resume)
qed

lemma loading_state_begin:
  "handleLoadMore_begin searched_state = (loading_state, Some (''a'', 2))"
  using handleLoadMore_begin_fetch [of searched_state]
  by (simp add: loading_state_def searched_state_simps)


lemma wf_obj_resume: "wf_obj (dataObj s) \<Longrightarrow> wf_obj (dataObj (resume p outcome s))"
proof -
  assume wf: "wf_obj (dataObj s)"
  have "wf_obj (dataObj (getData_resume page outcome s))" for page
  proof (cases outcome)
    case Rejected
    with wf show ?thesis by (simp add: getData_resume_Rejected)
  next
    case (Resolved res)
    show ?thesis
    proof (cases "lacks_list outcome")
      case True
      with wf show ?thesis by (simp add: getData_resume_lacks)
    next
      case False
      with Resolved obtain data movies where "res = Some data" and "resp_list data = Some movies"
        by (cases res) (auto simp: lacks_list_def)
      with wf Resolved show ?thesis
        by (simp add: getData_resume_success setPagination_def setDataObj_def save_movies_frame
              wf_obj_put)
    qed
  qed
  then show ?thesis by (cases p) (simp_all add: handleLoadMore_resume_def)
qed

lemma reachable_wf_obj: "reachable c \<Longrightarrow> wf_obj (dataObj (fst c))"
proof (induction rule: reachable.induct)
  case (mount store)
  show ?case by (simp add: initial_state_def)
next
  case (event c c')
  from event.hyps(2) event.IH show ?case
  proof (induction rule: step.induct)
    case (onChangeText s ps t)
    then show ?case by (simp add: setSearchword_def)
  next
    case (onSubmitEditing s s' r ps)
    then have "getData_begin (searchword s) 1 s = (s', r)"
      by (simp add: handleSearchSubmit_begin_def)
    from getData_begin_frame [OF this] onSubmitEditing.prems show ?case by simp
  next
    case (onRefresh s s' r ps)
    then have "getData_begin (searchword s) 1 s = (s', r)"
      by (simp add: handleRefresh_begin_def)
    from getData_begin_frame [OF this] onRefresh.prems show ?case by simp
  next
    case (onEndReached s s' r ps)
    from handleLoadMore_begin_frame(1) [OF onEndReached.hyps] onEndReached.prems show ?case
      by simp
  next
    case (settle p ps s outcome)
    then show ?case by (simp add: wf_obj_resume)
  next
    case (staleGetData mounted kw s s' r ps)
    from getData_start_frame [OF staleGetData.hyps] staleGetData.prems show ?case by simp
  next
    case (staleLoadMore rendered s s' r ps)
    from handleLoadMore_closure_frame [OF staleLoadMore.hyps] staleLoadMore.prems show ?case
      by simp
  qed
qed

lemma pagination_success:
  "resp_list data = Some movies \<Longrightarrow>
   pagination (resume p (Resolved (Some data)) s) =
     \<lparr>currentPage = resp_currentPage (resp_pagination data),
      totalPages = resp_totalPages (resp_pagination data),
      hasMore = resp_currentPage (resp_pagination data) < resp_totalPages (resp_pagination data)\<rparr>"
  by (cases p) (simp_all add: handleLoadMore_resume_def getData_resume_success setPagination_def)

lemma pagination_resume:
  "pagination (resume p outcome s) = pagination s \<or>
   (\<exists>data movies. outcome = Resolved (Some data) \<and> resp_list data = Some movies)"
proof (cases outcome)
  case Rejected
  then show ?thesis
    by (cases p) (simp_all add: handleLoadMore_resume_def getData_resume_Rejected)
next
  case (Resolved res)
  show ?thesis
  proof (cases "lacks_list outcome")
    case True
    then show ?thesis
      by (cases p) (simp_all add: handleLoadMore_resume_def getData_resume_lacks)
  next
    case False
    with Resolved show ?thesis
      by (cases res) (auto simp: lacks_list_def)
  qed
qed

lemma step_pagination:
  assumes "step (s, ps) (s', ps')"
  shows "pagination s' = pagination s \<or>
     (\<exists>p data movies. p \<in> set ps \<and> resp_list data = Some movies \<and>
        s' = resume p (Resolved (Some data)) s)"
  using assms
proof (cases rule: step.cases)
  case (onChangeText t)
  then show ?thesis by (simp add: setSearchword_def)
next
  case (onSubmitEditing r)
  then have "getData_begin (searchword s) 1 s = (s', r)"
    by (simp add: handleSearchSubmit_begin_def)
  from getData_begin_frame [OF this] show ?thesis by simp
next
  case (onRefresh r)
  then have "getData_begin (searchword s) 1 s = (s', r)"
    by (simp add: handleRefresh_begin_def)
  from getData_begin_frame [OF this] show ?thesis by simp
next
  case (onEndReached r)
  from handleLoadMore_begin_frame(3) [OF onEndReached(2)] show ?thesis by simp
next
  case (settle p outcome)
  with pagination_resume [of p outcome s] show ?thesis by auto
next
  case (staleGetData mounted kw r)
  from getData_start_frame [OF staleGetData(2)] show ?thesis by simp
next
  case (staleLoadMore rendered r)
  from handleLoadMore_closure_frame [OF staleLoadMore(2)] show ?thesis by simp
qed

text \<open>
  C6, as amended. \<^verbatim>\<open>pagination\<close> changes only when a fetch settles successfully, and
  \<^verbatim>\<open>currentPage\<close>, \<^verbatim>\<open>totalPages\<close> and \<^verbatim>\<open>hasMore\<close> are then what the response's
  pagination says. So when the response reports the page that was asked for, a successful
  load-more advances \<^verbatim>\<open>currentPage\<close> by exactly 1 and a successful search or refresh sets
  it to 1.
\<close>

theorem currentPage_follows_response:
  "(step (s, ps) (s', ps') \<longrightarrow>
      pagination s' = pagination s \<or>
      (\<exists>p data movies. p \<in> set ps \<and> resp_list data = Some movies \<and>
         s' = resume p (Resolved (Some data)) s)) \<and>
   (\<forall>p data movies. resp_list data = Some movies \<longrightarrow>
      pagination (resume p (Resolved (Some data)) s) =
        \<lparr>currentPage = resp_currentPage (resp_pagination data),
         totalPages = resp_totalPages (resp_pagination data),
         hasMore = resp_currentPage (resp_pagination data)
                   < resp_totalPages (resp_pagination data)\<rparr>) \<and>
   (\<forall>s1 req data movies.
      handleLoadMore_begin s = (s1, Some req) \<and> resp_list data = Some movies \<and>
      resp_currentPage (resp_pagination data) = snd req \<longrightarrow>
      currentPage (pagination (handleLoadMore (Resolved (Some data)) s))
        = currentPage (pagination s) + 1) \<and>
   (\<forall>data movies.
      searchword s \<noteq> [] \<and> resp_list data = Some movies \<and>
      resp_currentPage (resp_pagination data) = 1 \<longrightarrow>
      currentPage (pagination (handleSearchSubmit (Resolved (Some data)) s)) = 1 \<and>
      currentPage (pagination (handleRefresh (Resolved (Some data)) s)) = 1)"
proof (intro conjI allI impI)
  assume "step (s, ps) (s', ps')"
  then show "pagination s' = pagination s \<or>
      (\<exists>p data movies. p \<in> set ps \<and> resp_list data = Some movies \<and>
         s' = resume p (Resolved (Some data)) s)"
    by (rule step_pagination)
next
  fix p and data :: SearchResult and movies
  assume "resp_list data = Some movies"
  then show "pagination (resume p (Resolved (Some data)) s) =
        \<lparr>currentPage = resp_currentPage (resp_pagination data),
         totalPages = resp_totalPages (resp_pagination data),
         hasMore = resp_currentPage (resp_pagination data)
                   < resp_totalPages (resp_pagination data)\<rparr>"
    by (rule pagination_success)
next
  fix s1 req and data :: SearchResult and movies
  assume a: "handleLoadMore_begin s = (s1, Some req) \<and> resp_list data = Some movies \<and>
      resp_currentPage (resp_pagination data) = snd req"
  then have b: "handleLoadMore_begin s = (s1, Some req)" by simp
  from handleLoadMore_begin_Some(4) [OF b]
  have req: "snd req = currentPage (pagination s) + 1" by simp
  have "handleLoadMore (Resolved (Some data)) s =
      resume (AwaitLoadMore (snd req)) (Resolved (Some data)) s1"
    using b by (cases req) (simp add: handleLoadMore_def)
  then show "currentPage (pagination (handleLoadMore (Resolved (Some data)) s))
        = currentPage (pagination s) + 1"
    using a req pagination_success [of data movies "AwaitLoadMore (snd req)" s1] by simp
next
  fix data :: SearchResult and movies
  assume a: "searchword s \<noteq> [] \<and> resp_list data = Some movies \<and>
      resp_currentPage (resp_pagination data) = 1"
  then have "getData (Resolved (Some data)) (searchword s) 1 s =
      resume (AwaitGetData 1) (Resolved (Some data)) (fst (getData_begin (searchword s) 1 s))"
    by (simp add: getData_unfold)
  then have "currentPage (pagination (getData (Resolved (Some data)) (searchword s) 1 s)) = 1"
    using a pagination_success [of data movies "AwaitGetData 1" "fst (getData_begin (searchword s) 1 s)"]
    by simp
  then show "currentPage (pagination (handleSearchSubmit (Resolved (Some data)) s)) = 1"
    and "currentPage (pagination (handleRefresh (Resolved (Some data)) s)) = 1"
    by (simp_all add: handleSearchSubmit_def handleRefresh_def)
qed

text \<open>
  C6 as it was stated does not hold: in a state the page reaches, with
  \<^verbatim>\<open>currentPage = 1\<close>, a successful load-more (which asks for page 2) whose response reports
  page 7 leaves \<^verbatim>\<open>currentPage = 7\<close>, and so does a successful refresh.
\<close>

theorem currentPage_advance_counterexample:
  "reachable (searched_state, []) \<and>
   currentPage (pagination searched_state) = 1 \<and>
   snd (handleLoadMore_begin searched_state) = Some (''a'', 2) \<and>
   resp_list skipped_page = Some [sample_movie ''k9''] \<and>
   currentPage (pagination (handleLoadMore (Resolved (Some skipped_page)) searched_state)) = 7 \<and>
   snd (handleRefresh_begin searched_state) = Some (''a'', 1) \<and>
   currentPage (pagination (handleRefresh (Resolved (Some skipped_page)) searched_state)) = 7"
proof -
  have more: "currentPage (pagination (handleLoadMore (Resolved (Some skipped_page)) searched_state)) = 7"
    by (simp add: handleLoadMore_def loading_state_begin handleLoadMore_resume_def
          getData_resume_def skipped_page_def setPagination_def)
  have again: "currentPage (pagination (handleRefresh (Resolved (Some skipped_page)) searched_state)) = 7"
    by (simp add: handleRefresh_def getData_unfold searched_state_simps
          getData_resume_def skipped_page_def setPagination_def)
  show ?thesis
    using more again searched_state_reachable
    by (simp add: searched_state_simps loading_state_begin handleRefresh_begin_def
          getData_begin_request skipped_page_def)
qed

lemma loading_state_reachable: "reachable (loading_state, [AwaitLoadMore 2])"
proof -
  have "step (searched_state, []) (loading_state, [] @ suspend AwaitLoadMore (Some (''a'', 2)))"
    using loading_state_begin by (rule step.onEndReached)
  then have "step (searched_state, []) (loading_state, [AwaitLoadMore 2])"
    by (simp add: suspend_def)
  with searched_state_reachable show ?thesis by (rule reachable.event)
qed

lemma loading_state_simps:
  "isLoadingMore loading_state" "searchword loading_state = ''a''"
  "dataObj loading_state = [(1, [''k1'', ''k2''])]"
  "pagination loading_state = \<lparr>currentPage = 1, totalPages = 9, hasMore = True\<rparr>"
  using handleLoadMore_begin_Some [OF loading_state_begin]
  by (simp_all add: searched_state_simps)

text \<open>
  C4. The guard of \<^verbatim>\<open>handleLoadMore\<close> (line 137) tests the \<^verbatim>\<open>isLoadingMore\<close> and
  \<^verbatim>\<open>pagination\<close> of the render that made the handler, not the present state, so two
  calls in immediate succession, with no render between them, both pass it. In the state
  after the search for \<open>a\<close> (page 1 of 9 shown, nothing loading) the first call turns
  \<^verbatim>\<open>isLoadingMore\<close> on and asks for page 2; the second call by the same handler, made in
  the state the first one left, with \<^verbatim>\<open>isLoadingMore\<close> on, asks for page 2 again: two
  fetches where the claim has one, and no silent no-op where \<^verbatim>\<open>isLoadingMore\<close> is on.
\<close>

theorem loadMore_twice_in_one_render:
  "\<not> isLoadingMore searched_state \<and>
   hasMore (pagination searched_state) \<and>
   currentPage (pagination searched_state) = 1 \<and>
   handleLoadMore_closure searched_state searched_state = (loading_state, Some (''a'', 2)) \<and>
   isLoadingMore loading_state \<and>
   handleLoadMore_closure searched_state loading_state = (loading_state, Some (''a'', 2))"
proof -
  have free: "\<not> isLoadingMore searched_state" "hasMore (pagination searched_state)"
    "searchword searched_state \<noteq> []" "currentPage (pagination searched_state) = 1"
    by (simp_all add: searched_state_simps)
  have first: "handleLoadMore_closure searched_state searched_state = (loading_state, Some (''a'', 2))"
    using loading_state_begin by (simp add: handleLoadMore_begin_def)
  have shape: "loading_state = searched_state\<lparr>isLoadingMore := True, loading := True\<rparr>"
    using handleLoadMore_closure_fetch [OF free(1-3), of searched_state] first
    by (simp add: getData_start_def searched_state_simps)
  have "handleLoadMore_closure searched_state loading_state
      = (fst (getData_start (flatListRef_current searched_state) ''a'' 2
                (loading_state\<lparr>isLoadingMore := True\<rparr>)), Some (''a'', 2))"
    using handleLoadMore_closure_fetch [OF free(1-3), of loading_state]
    by (simp add: searched_state_simps)
  also have "fst (getData_start (flatListRef_current searched_state) ''a'' 2
                (loading_state\<lparr>isLoadingMore := True\<rparr>)) = loading_state"
    by (simp add: getData_start_def shape)
  finally have second: "handleLoadMore_closure searched_state loading_state
      = (loading_state, Some (''a'', 2))" .
  from free first second show ?thesis by (simp add: loading_state_simps)
qed

lemma two_pages_state_resume:
  "two_pages_state = resume (AwaitLoadMore 2) (Resolved (Some second_page)) loading_state"
  by (simp add: two_pages_state_def handleLoadMore_def loading_state_begin)

lemma two_pages_state_simps:
  "searchword two_pages_state = ''a''"
  "dataObj two_pages_state = [(1, [''k1'', ''k2'']), (2, [''k3'', ''k4''])]"
  "pagination two_pages_state = \<lparr>currentPage = 2, totalPages = 9, hasMore = True\<rparr>"
  "\<not> isLoadingMore two_pages_state"
  by (simp_all add: two_pages_state_resume handleLoadMore_resume_def getData_resume_def
        second_page_def setPagination_def setDataObj_def save_movies_frame loading_state_simps
        sample_movie_def is_array_index_def)

lemma two_pages_visible: "list_keys (dataObj two_pages_state) = [''k1'', ''k2'', ''k3'', ''k4'']"
  by (simp add: two_pages_state_simps list_keys_def own_keys_def lodash_get_def obj_get_def)

theorem page1_fetch_resets_page_map_witness:
  "searchword two_pages_state \<noteq> [] \<and>
   resp_list fresh_page = Some [sample_movie ''k5''] \<and>
   list_keys (dataObj two_pages_state) = [''k1'', ''k2'', ''k3'', ''k4''] \<and>
   list_keys (dataObj (handleSearchSubmit (Resolved (Some fresh_page)) two_pages_state)) = [''k5''] \<and>
   list_keys (dataObj (handleRefresh (Resolved (Some fresh_page)) two_pages_state)) = [''k5'']"
proof -
  have kw: "searchword two_pages_state \<noteq> []" by (simp add: two_pages_state_simps)
  have ok: "resp_list fresh_page = Some [sample_movie ''k5'']" by (simp add: fresh_page_def)
  from page1_fetch_resets_page_map [OF kw ok] kw ok two_pages_visible show ?thesis
    by (simp add: sample_movie_def list_keys_single)
qed

theorem cache_precedes_visibility_witness:
  "reachable (loading_state, [AwaitLoadMore 2]) \<and>
   resp_list second_page = Some [sample_movie ''k3'', sample_movie ''k4''] \<and>
   list_keys (dataObj two_pages_state) = [''k1'', ''k2'', ''k3'', ''k4''] \<and>
   getVideoData ''k1'' two_pages_state \<noteq> None \<and>
   getVideoData ''k2'' two_pages_state \<noteq> None \<and>
   getVideoData ''k3'' two_pages_state \<noteq> None \<and>
   getVideoData ''k4'' two_pages_state \<noteq> None"
proof -
  have ok: "resp_list second_page = Some [sample_movie ''k3'', sample_movie ''k4'']"
    by (simp add: second_page_def)
  from cache_precedes_visibility [OF loading_state_reachable ok, of 2 "AwaitLoadMore 2"]
  have "\<forall>key \<in> set (list_keys (dataObj two_pages_state)). getVideoData key two_pages_state \<noteq> None"
    unfolding two_pages_state_resume by blast
  then show ?thesis
    using ok loading_state_reachable by (simp add: two_pages_visible)
qed

theorem failed_fetch_preserves_state_witness:
  "handleLoadMore_begin searched_state = (loading_state, Some (''a'', 2)) \<and>
   dataObj (handleLoadMore Rejected searched_state) = [(1, [''k1'', ''k2''])] \<and>
   currentPage (pagination (handleLoadMore Rejected searched_state)) = 1 \<and>
   snd (handleLoadMore_begin (handleLoadMore Rejected searched_state)) = Some (''a'', 2)"
proof -
  from failed_fetch_preserves_state [of 2 searched_state] loading_state_begin
  have "dataObj (handleLoadMore Rejected searched_state) = dataObj searched_state"
    and "pagination (handleLoadMore Rejected searched_state) = pagination searched_state"
    and "snd (handleLoadMore_begin (handleLoadMore Rejected searched_state)) = Some (''a'', 2)"
    by blast+
  with loading_state_begin show ?thesis by (simp add: searched_state_simps)
qed

theorem currentPage_follows_response_witness:
  "step (searched_state, []) (loading_state, [AwaitLoadMore 2]) \<and>
   pagination loading_state = pagination searched_state \<and>
   handleLoadMore_begin searched_state = (loading_state, Some (''a'', 2)) \<and>
   resp_list second_page = Some [sample_movie ''k3'', sample_movie ''k4''] \<and>
   resp_currentPage (resp_pagination second_page) = 2 \<and>
   currentPage (pagination (handleLoadMore (Resolved (Some second_page)) searched_state)) = 2 \<and>
   searchword two_pages_state \<noteq> [] \<and>
   resp_list fresh_page = Some [sample_movie ''k5''] \<and>
   resp_currentPage (resp_pagination fresh_page) = 1 \<and>
   currentPage (pagination two_pages_state) = 2 \<and>
   currentPage (pagination (handleRefresh (Resolved (Some fresh_page)) two_pages_state)) = 1"
proof -
  have st: "step (searched_state, []) (loading_state, [AwaitLoadMore 2])"
    using step.onEndReached [OF loading_state_begin, of "[]"] by (simp add: suspend_def)
  have ok2: "resp_list second_page = Some [sample_movie ''k3'', sample_movie ''k4'']"
    and cp2: "resp_currentPage (resp_pagination second_page) = 2"
    by (simp_all add: second_page_def)
  have ok1: "resp_list fresh_page = Some [sample_movie ''k5'']"
    and cp1: "resp_currentPage (resp_pagination fresh_page) = 1"
    by (simp_all add: fresh_page_def)
  have kw: "searchword two_pages_state \<noteq> []" by (simp add: two_pages_state_simps)
  from currentPage_follows_response [of searched_state "[]" loading_state "[AwaitLoadMore 2]"]
    st loading_state_begin ok2 cp2
  have a: "pagination loading_state = pagination searched_state"
    and b: "currentPage (pagination (handleLoadMore (Resolved (Some second_page)) searched_state))
        = currentPage (pagination searched_state) + 1"
    by (simp_all add: loading_state_simps searched_state_simps)
  from currentPage_follows_response [of two_pages_state "[]" two_pages_state "[]"] kw ok1 cp1
  have c: "currentPage (pagination (handleRefresh (Resolved (Some fresh_page)) two_pages_state)) = 1"
    by blast
  from st a b c ok1 ok2 cp1 cp2 kw loading_state_begin show ?thesis
    by (simp add: searched_state_simps two_pages_state_simps)
qed

theorem soft_no_op_without_list_witness:
  "lacks_list (Resolved (Some listless)) \<and>
   lacks_list (Resolved None) \<and>
   getData_resume 2 (Resolved (Some listless)) loading_state =
     loading_state\<lparr>loading := False, isRefreshing := False\<rparr> \<and>
   dataObj (getData_resume 2 (Resolved None) loading_state) = [(1, [''k1'', ''k2''])]"
proof -
  have h1: "lacks_list (Resolved (Some listless))" and h2: "lacks_list (Resolved None)"
    by (simp_all add: lacks_list_def listless_def)
  from soft_no_op_without_list [OF h1, of 2 loading_state]
    soft_no_op_without_list [OF h2, of 2 loading_state] h1 h2
  show ?thesis by (simp add: loading_state_simps)
qed

theorem later_page_writes_only_its_entry_witness:
  "(1::int) < 2 \<and>
   resp_list second_page = Some [sample_movie ''k3'', sample_movie ''k4''] \<and>
   obj_get (dataObj (getData_resume 2 (Resolved (Some second_page)) loading_state)) 2
     = Some [''k3'', ''k4''] \<and>
   obj_get (dataObj (getData_resume 2 (Resolved (Some second_page)) loading_state)) 1
     = Some [''k1'', ''k2'']"
proof -
  have ok: "resp_list second_page = Some [sample_movie ''k3'', sample_movie ''k4'']"
    by (simp add: second_page_def)
  have lt: "(1::int) < 2" by simp
  from later_page_writes_only_its_entry [OF lt ok, of loading_state] ok show ?thesis
    by (simp add: loading_state_simps obj_get_def sample_movie_def)
qed

theorem refresh_is_search_submit_witness:
  "searchword (initial_state empty_store) = [] \<and>
   handleRefresh_begin (initial_state empty_store) = (initial_state empty_store, None) \<and>
   handleRefresh Rejected (initial_state empty_store) = initial_state empty_store \<and>
   handleRefresh (Resolved (Some fresh_page)) two_pages_state
     = handleSearchSubmit (Resolved (Some fresh_page)) two_pages_state"
proof -
  have h: "searchword (initial_state empty_store) = []" by (simp add: initial_state_def)
  from refresh_is_search_submit [of "initial_state empty_store" Rejected] h
    refresh_is_search_submit [of two_pages_state "Resolved (Some fresh_page)"]
  show ?thesis by blast
qed

theorem empty_list_is_success_witness:
  "resp_list empty_page = Some [] \<and>
   dataObj (getData_resume 1 (Resolved (Some empty_page)) two_pages_state) = [(1, [])] \<and>
   pagination (getData_resume 1 (Resolved (Some empty_page)) two_pages_state)
     = \<lparr>currentPage = 1, totalPages = 1, hasMore = False\<rparr> \<and>
   obj_get (dataObj (getData_resume 3 (Resolved (Some empty_page)) two_pages_state)) 3 = Some []"
proof -
  have ok: "resp_list empty_page = Some []" by (simp add: empty_page_def)
  from empty_list_is_success [OF ok, of 1 two_pages_state]
  have "dataObj (getData_resume 1 (Resolved (Some empty_page)) two_pages_state) = [(1, [])]"
    and "pagination (getData_resume 1 (Resolved (Some empty_page)) two_pages_state)
     = \<lparr>currentPage = 1, totalPages = 1, hasMore = False\<rparr>"
    by (simp_all add: empty_page_def)
  moreover from empty_list_is_success [OF ok, of 3 two_pages_state]
  have "obj_get (dataObj (getData_resume 3 (Resolved (Some empty_page)) two_pages_state)) 3 = Some []"
    by blast
  ultimately show ?thesis using ok by simp
qed

end
